theory Spec2Isabelle
  imports Main "HOL-Library.Word"
begin

section \<open>Data model\<close>

text \<open>
  A parsed JSON document, as \<^verbatim>\<open>json.loads\<close> builds it: \<^verbatim>\<open>str\<close>, \<^verbatim>\<open>int\<close>
  (unbounded), \<^verbatim>\<open>float\<close> (the 64 bits of the double; its content is never inspected),
  \<^verbatim>\<open>bool\<close>, \<^verbatim>\<open>list\<close>, \<^verbatim>\<open>dict\<close> and \<^verbatim>\<open>None\<close>. A \<^verbatim>\<open>dict\<close> is an association
  list in insertion order, which is the order \<^verbatim>\<open>items()\<close> iterates in.
\<close>

datatype json =
    JStr string
  | JInt int
  | JFloat "64 word"
  | JBool bool
  | JList "json list"
  | JDict "(string \<times> json) list"
  | JNull

text \<open>
  Exceptions: the two the program raises itself, the parse error of the XML library, the
  \<^verbatim>\<open>RecursionError\<close> the interpreter raises when a call would exceed its recursion
  limit, and any other exception of a library call, which the program lets through.
\<close>

datatype error =
    TypeError string | ValueError string | ParseError string | RecursionError | OtherError string

text \<open>
  The random value provider (\<^verbatim>\<open>self.fake\<close>) is an external collaborator. Its generator
  state is a value of an arbitrary type \<open>'g\<close>; each of the four calls the program makes
  returns a value and the next state.
\<close>

record 'g provider =
  fake_word :: "'g \<Rightarrow> string \<times> 'g"
  fake_random_int :: "'g \<Rightarrow> int \<times> 'g"
  fake_pyfloat :: "'g \<Rightarrow> 64 word \<times> 'g"
  fake_boolean :: "'g \<Rightarrow> bool \<times> 'g"

section \<open>The JSON adapter\<close>

text \<open>
  \<^verbatim>\<open>d[k] = v\<close> on a Python \<^verbatim>\<open>dict\<close>: an existing key keeps its place and takes the new
  value, a new key is appended.
\<close>

fun dict_setitem :: "string \<Rightarrow> json \<Rightarrow> (string \<times> json) list \<Rightarrow> (string \<times> json) list" where
  "dict_setitem k v [] = [(k, v)]"
| "dict_setitem k v ((k', v') # d) =
     (if k' = k then (k, v) # d else (k', v') # dict_setitem k v d)"

text \<open>
  \<^verbatim>\<open>isinstance\<close> on a parsed value. \<^verbatim>\<open>bool\<close> is a subclass of \<^verbatim>\<open>int\<close> in Python, so
  \<^verbatim>\<open>isinstance(True, int)\<close> holds.
\<close>

fun isinstance_str :: "json \<Rightarrow> bool" where
  "isinstance_str (JStr _) = True"
| "isinstance_str _ = False"

fun isinstance_int :: "json \<Rightarrow> bool" where
  "isinstance_int (JInt _) = True"
| "isinstance_int (JBool _) = True"
| "isinstance_int _ = False"

fun isinstance_float :: "json \<Rightarrow> bool" where
  "isinstance_float (JFloat _) = True"
| "isinstance_float _ = False"

fun isinstance_bool :: "json \<Rightarrow> bool" where
  "isinstance_bool (JBool _) = True"
| "isinstance_bool _ = False"

fun isinstance_list :: "json \<Rightarrow> bool" where
  "isinstance_list (JList _) = True"
| "isinstance_list _ = False"

fun isinstance_dict :: "json \<Rightarrow> bool" where
  "isinstance_dict (JDict _) = True"
| "isinstance_dict _ = False"

fun list_items :: "json \<Rightarrow> json list" where
  "list_items (JList xs) = xs"
| "list_items _ = []"

fun dict_items :: "json \<Rightarrow> (string \<times> json) list" where
  "dict_items (JDict kvs) = kvs"
| "dict_items _ = []"

text \<open>
  \<^verbatim>\<open>randomize_json_schema\<close> with its inner \<^verbatim>\<open>randomize_value\<close>, the list comprehension
  of the list branch (\<open>randomize_list\<close>) and the \<^verbatim>\<open>for key, value in input_data.items()\<close>
  loop (\<open>randomize_items\<close>, whose fourth argument is \<^verbatim>\<open>randomized_data\<close>). The
  \<^verbatim>\<open>isinstance\<close> tests are taken in the order of the source. In the assignment
  \<^verbatim>\<open>randomized_data[self.fake.word()] = randomize_value(value)\<close> Python evaluates the
  right-hand side first, so the value is randomized before the key word is drawn.

  The functions call each other once per level of nesting of the document, and the
  interpreter raises \<^verbatim>\<open>RecursionError\<close> when a call would exceed its recursion limit. The
  first argument \<open>n\<close> is the number of further frames the limit leaves below the running
  one: a call of one of the program's own functions from a frame with \<open>n = 0\<close> raises
  \<^verbatim>\<open>RecursionError\<close>, and from a frame with \<open>n = Suc m\<close> the callee runs with \<open>m\<close>. The
  frames are those of \<^verbatim>\<open>randomize_json_schema\<close>, of \<^verbatim>\<open>randomize_value\<close> and of the list
  comprehension, which the interpreter runs as a function of its own (CPython up to
  version 3.11; a later one runs it within the frame of \<^verbatim>\<open>randomize_value\<close>, and a list
  then takes one frame less than counted here). The \<^verbatim>\<open>isinstance\<close> tests are built in
  and take no frame. The provider is an external collaborator: its calls are taken to
  return, and the frames they use inside are not counted.
\<close>

function
  randomize_json_schema :: "nat \<Rightarrow> 'g provider \<Rightarrow> json \<Rightarrow> 'g \<Rightarrow> error + json \<times> 'g" and
  randomize_value :: "nat \<Rightarrow> 'g provider \<Rightarrow> json \<Rightarrow> 'g \<Rightarrow> error + json \<times> 'g" and
  randomize_list :: "nat \<Rightarrow> 'g provider \<Rightarrow> json list \<Rightarrow> 'g \<Rightarrow> error + json list \<times> 'g" and
  randomize_items ::
    "nat \<Rightarrow> 'g provider \<Rightarrow> (string \<times> json) list \<Rightarrow> (string \<times> json) list \<Rightarrow> 'g \<Rightarrow>
     error + json \<times> 'g"
where
  "randomize_json_schema n P input_data g =
     (if \<not> isinstance_dict input_data
      then Inl (TypeError ''Input data must be a dictionary for JSON format.'')
      else randomize_items n P (dict_items input_data) [] g)"
| "randomize_value n P v g =
     (if isinstance_str v then (let (w, g') = fake_word P g in Inr (JStr w, g'))
      else if isinstance_int v then (let (i, g') = fake_random_int P g in Inr (JInt i, g'))
      else if isinstance_float v then (let (f, g') = fake_pyfloat P g in Inr (JFloat f, g'))
      else if isinstance_bool v then (let (b, g') = fake_boolean P g in Inr (JBool b, g'))
      else if isinstance_list v then
        (case n of
           0 \<Rightarrow> Inl RecursionError
         | Suc m \<Rightarrow>
             (case randomize_list m P (list_items v) g of
                Inl e \<Rightarrow> Inl e
              | Inr (ys, g') \<Rightarrow> Inr (JList ys, g')))
      else if isinstance_dict v then
        (case n of
           0 \<Rightarrow> Inl RecursionError
         | Suc m \<Rightarrow> randomize_json_schema m P v g)
      else Inr (JNull, g))"
| "randomize_list n P [] g = Inr ([], g)"
| "randomize_list n P (item # items) g =
     (case n of
        0 \<Rightarrow> Inl RecursionError
      | Suc m \<Rightarrow>
          (case randomize_value m P item g of
             Inl e \<Rightarrow> Inl e
           | Inr (y, g1) \<Rightarrow>
               (case randomize_list n P items g1 of
                  Inl e \<Rightarrow> Inl e
                | Inr (ys, g2) \<Rightarrow> Inr (y # ys, g2))))"
| "randomize_items n P [] randomized_data g = Inr (JDict randomized_data, g)"
| "randomize_items n P ((key, v) # rest) randomized_data g =
     (case n of
        0 \<Rightarrow> Inl RecursionError
      | Suc m \<Rightarrow>
          (case randomize_value m P v g of
             Inl e \<Rightarrow> Inl e
           | Inr (v', g1) \<Rightarrow>
               (let (w, g2) = fake_word P g1
                in randomize_items n P rest (dict_setitem w v' randomized_data) g2)))"
  by pat_completeness auto

termination
proof (relation "measure (\<lambda>s. case s of
      Inl (Inl (n, P, d, g)) \<Rightarrow> 3 * size d + 1
    | Inl (Inr (n, P, x, g)) \<Rightarrow> 3 * size x + 2
    | Inr (Inl (n, P, xs, g)) \<Rightarrow> 3 * size_list size xs
    | Inr (Inr (n, P, kvs, acc, g)) \<Rightarrow> 3 * size_list (size_prod (\<lambda>_. 0) size) kvs)",
    goal_cases)
  case 1
  show ?case by simp
next
  case (2 n P input_data g)
  then show ?case by (cases input_data) simp_all
next
  case (3 n P v g m)
  then show ?case by (cases v) simp_all
next
  case (4 n P v g m)
  then show ?case by (cases v) simp_all
qed simp_all

text \<open>
  The number of frames a document needs below the one that handles it.
  \<open>call_depth_value v\<close> is the least \<open>n\<close> with which \<open>randomize_value n\<close> returns on \<open>v\<close>:
  none for a leaf; for a list the frame of the comprehension and below it, for the
  deepest element, the frame of its \<^verbatim>\<open>randomize_value\<close> and what that one needs; for a
  mapping the frame of \<^verbatim>\<open>randomize_json_schema\<close> and below it the same for the deepest
  value. \<open>call_depth_schema d\<close> is the least \<open>n\<close> with which \<open>randomize_json_schema n\<close>
  returns on the mapping \<open>d\<close>.
\<close>

definition max_list :: "nat list \<Rightarrow> nat" where
  "max_list ns = foldr max ns 0"

fun call_depth_value :: "json \<Rightarrow> nat" where
  "call_depth_value (JList xs) = Suc (max_list (map (\<lambda>x. Suc (call_depth_value x)) xs))"
| "call_depth_value (JDict kvs) =
     Suc (max_list (map (\<lambda>v. Suc (call_depth_value v)) (map snd kvs)))"
| "call_depth_value _ = 0"

definition call_depth_schema :: "json \<Rightarrow> nat" where
  "call_depth_schema d = max_list (map (\<lambda>v. Suc (call_depth_value v)) (map snd (dict_items d)))"

text \<open>
  A provider for running the model on concrete inputs: the generator state is a counter,
  the \<open>n\<close>-th draw of a word is \<open>ws ! (n mod length ws)\<close>, and the other draws are
  fixed functions of the counter.
\<close>

definition cycle_provider :: "string list \<Rightarrow> nat provider" where
  "cycle_provider ws =
     \<lparr> fake_word = (\<lambda>n. (ws ! (n mod length ws), Suc n)),
       fake_random_int = (\<lambda>n. (int n, Suc n)),
       fake_pyfloat = (\<lambda>n. (of_nat n, Suc n)),
       fake_boolean = (\<lambda>n. (even n, Suc n)) \<rparr>"



section \<open>Shape of a document\<close>






section \<open>The XML adapter\<close>

text \<open>
  An element of \<^verbatim>\<open>xml.etree.ElementTree\<close>: tag, attributes, text (\<^verbatim>\<open>None\<close> or a string),
  tail and children. \<^verbatim>\<open>ET.fromstring\<close> builds a tree whose elements are all distinct
  objects, and the tree is local to \<^verbatim>\<open>randomize_xml_schema\<close>, so the in-place update of
  \<^verbatim>\<open>randomize_element\<close> is modelled by returning the updated tree; a tree left half
  updated by an exception is seen by nobody.
\<close>

datatype element =
  Element (elem_tag: string) (elem_attrib: "(string \<times> string) list")
    (elem_text: "string option") (elem_tail: "string option") (elem_children: "element list")

text \<open>Python's truth value of \<^verbatim>\<open>element.text\<close>: false for \<^verbatim>\<open>None\<close> and for the empty string.\<close>

fun truthy :: "string option \<Rightarrow> bool" where
  "truthy None = False"
| "truthy (Some s) = (s \<noteq> [])"

text \<open>
  \<^verbatim>\<open>randomize_element\<close>: a word for the tag, then a word for the text if the element has
  text, then the children in order (\<open>randomize_children\<close> is the \<^verbatim>\<open>for child in element\<close>
  loop, which runs in the frame of \<^verbatim>\<open>randomize_element\<close>). Attributes and tail are not
  touched. The function calls itself once per level of nesting; as in the JSON adapter,
  the first argument is the number of further frames the recursion limit leaves below
  the running one, and the call for a child from a frame that has none left raises
  \<^verbatim>\<open>RecursionError\<close>.
\<close>

fun
  randomize_element :: "nat \<Rightarrow> 'g provider \<Rightarrow> element \<Rightarrow> 'g \<Rightarrow> error + element \<times> 'g" and
  randomize_children ::
    "nat \<Rightarrow> 'g provider \<Rightarrow> element list \<Rightarrow> 'g \<Rightarrow> error + element list \<times> 'g"
where
  "randomize_element n P (Element tg attrs tx tlx cs) g =
     (let (new_tag, g1) = fake_word P g;
          (new_text, g2) =
            (if truthy tx then (let (w, g') = fake_word P g1 in (Some w, g')) else (tx, g1))
      in case randomize_children n P cs g2 of
           Inl e \<Rightarrow> Inl e
         | Inr (new_children, g3) \<Rightarrow> Inr (Element new_tag attrs new_text tlx new_children, g3))"
| "randomize_children n P [] g = Inr ([], g)"
| "randomize_children n P (child # rest) g =
     (case n of
        0 \<Rightarrow> Inl RecursionError
      | Suc m \<Rightarrow>
          (case randomize_element m P child g of
             Inl e \<Rightarrow> Inl e
           | Inr (child', g1) \<Rightarrow>
               (case randomize_children n P rest g1 of
                  Inl e \<Rightarrow> Inl e
                | Inr (rest', g2) \<Rightarrow> Inr (child' # rest', g2))))"

text \<open>
  \<^verbatim>\<open>randomize_xml_schema\<close>. The parser \<^verbatim>\<open>ET.fromstring\<close> and the serializer \<^verbatim>\<open>ET.tostring\<close>
  belong to the library and are parameters, and either may raise; a parse error is passed
  on to the caller (the program logs it first; the log is not part of this model). The
  call \<^verbatim>\<open>randomize_element(root)\<close> takes one of the \<open>n\<close> frames left below
  \<^verbatim>\<open>randomize_xml_schema\<close>.
\<close>

definition randomize_xml_schema ::
  "nat \<Rightarrow> (string \<Rightarrow> error + element) \<Rightarrow> (element \<Rightarrow> error + string) \<Rightarrow> 'g provider \<Rightarrow>
   string \<Rightarrow> 'g \<Rightarrow> error + string \<times> 'g" where
  "randomize_xml_schema n fromstring tostring P input_xml g =
     (case fromstring input_xml of
        Inl e \<Rightarrow> Inl e
      | Inr root \<Rightarrow>
          (case n of
             0 \<Rightarrow> Inl RecursionError
           | Suc m \<Rightarrow>
               (case randomize_element m P root g of
                  Inl e \<Rightarrow> Inl e
                | Inr (root', g') \<Rightarrow>
                    (case tostring root' of
                       Inl e \<Rightarrow> Inl e
                     | Inr s \<Rightarrow> Inr (s, g')))))"

text \<open>
  The number of frames \<^verbatim>\<open>randomize_element\<close> needs below its own on an element: one for
  each level of descendants.
\<close>

fun call_depth_element :: "element \<Rightarrow> nat" where
  "call_depth_element (Element tg attrs tx tlx cs) =
     max_list (map (\<lambda>c. Suc (call_depth_element c)) cs)"

text \<open>
  The elements of a tree in document order: an element, then the elements of its first
  subtree, then those of the next.
\<close>

fun preorder :: "element \<Rightarrow> element list" where
  "preorder (Element tg attrs tx tlx cs) =
     Element tg attrs tx tlx cs # concat (map preorder cs)"

definition has_text :: "element \<Rightarrow> bool" where
  "has_text e = truthy (elem_text e)"

text \<open>
  \<open>same_tree e out\<close>: the two trees have the same form, an element of one for each element
  of the other at the same place, with the same attributes and the same tail.
\<close>

fun same_tree :: "element \<Rightarrow> element \<Rightarrow> bool" where
  "same_tree (Element tg attrs tx tlx cs) out =
     (elem_attrib out = attrs \<and> elem_tail out = tlx \<and>
      list_all2 same_tree cs (elem_children out))"

text \<open>
  The words of the provider in the order of their draws: \<open>nth_word P g i\<close> is the word
  returned by the call of \<^verbatim>\<open>fake.word()\<close> that follows \<open>i\<close> earlier ones, the first of
  them made in state \<open>g\<close>; \<open>state_after P g k\<close> is the state after \<open>k\<close> calls.
\<close>

fun state_after :: "'g provider \<Rightarrow> 'g \<Rightarrow> nat \<Rightarrow> 'g" where
  "state_after P g 0 = g"
| "state_after P g (Suc k) = state_after P (snd (fake_word P g)) k"

definition nth_word :: "'g provider \<Rightarrow> 'g \<Rightarrow> nat \<Rightarrow> string" where
  "nth_word P g i = fst (fake_word P (state_after P g i))"

text \<open>
  The number of words a run draws for the elements \<open>es\<close>: one for each tag and one more
  for each element that has text.
\<close>

definition words_drawn :: "element list \<Rightarrow> nat" where
  "words_drawn es = length es + length (filter has_text es)"

text \<open>
  The tags and texts a run from state \<open>g\<close> gives to the elements \<open>es\<close> taken in order:
  for each element the next word as its tag and, if it has text, the word after that as
  its text.
\<close>

fun labels :: "'g provider \<Rightarrow> 'g \<Rightarrow> element list \<Rightarrow> (string \<times> string option) list" where
  "labels P g [] = []"
| "labels P g (e # es) =
     (let (w1, g1) = fake_word P g
      in if has_text e
         then (let (w2, g2) = fake_word P g1 in (w1, Some w2) # labels P g2 es)
         else (w1, elem_text e) # labels P g1 es)"

text \<open>
  A document of \<open>k + 1\<close> elements, each the only child of the one before and each with
  text, its XML text, and a parser that knows this one document.
\<close>

primrec nested :: "nat \<Rightarrow> element" where
  "nested 0 = Element ''a'' [] (Some ''x'') None []"
| "nested (Suc k) = Element ''a'' [] (Some ''x'') None [nested k]"

definition nested_xml :: "nat \<Rightarrow> string" where
  "nested_xml k = concat (replicate (Suc k) ''<a>x'') @ concat (replicate (Suc k) ''</a>'')"

definition nested_parser :: "nat \<Rightarrow> string \<Rightarrow> error + element" where
  "nested_parser k s =
     (if s = nested_xml k then Inr (nested k) else Inl (ParseError ''not well-formed''))"

text \<open>A serializer for running the model: it writes the tags in document order.\<close>

definition tag_writer :: "element \<Rightarrow> error + string" where
  "tag_writer e = Inr (concat (map elem_tag (preorder e)))"

section \<open>The CSV adapter\<close>

text \<open>The log: each record is a level and a message, in the order written.\<close>

datatype level = INFO | WARNING | ERROR

type_synonym log_record = "level \<times> string"

text \<open>\<^verbatim>\<open>sep.join(row)\<close>.\<close>

fun join :: "string \<Rightarrow> string list \<Rightarrow> string" where
  "join sep [] = []"
| "join sep [x] = x"
| "join sep (x # y # ys) = x @ sep @ join sep (y # ys)"

text \<open>The list comprehension \<^verbatim>\<open>[self.fake.word() for _ in row]\<close>: one word per cell.\<close>

fun words_for :: "'g provider \<Rightarrow> 'a list \<Rightarrow> 'g \<Rightarrow> string list \<times> 'g" where
  "words_for P [] g = ([], g)"
| "words_for P (_ # cells) g =
     (let (w, g1) = fake_word P g;
          (ws, g2) = words_for P cells g1
      in (w # ws, g2))"

text \<open>
  The loop \<^verbatim>\<open>for row in rows[1:]\<close>, which appends one randomized row to
  \<^verbatim>\<open>randomized_rows\<close> per input row.
\<close>

fun randomize_rows ::
  "'g provider \<Rightarrow> string list list \<Rightarrow> string list list \<Rightarrow> 'g \<Rightarrow> string list list \<times> 'g" where
  "randomize_rows P [] randomized_rows g = (randomized_rows, g)"
| "randomize_rows P (row # rows) randomized_rows g =
     (let (randomized_row, g1) = words_for P row g
      in randomize_rows P rows (randomized_rows @ [randomized_row]) g1)"

text \<open>The loop \<^verbatim>\<open>for row in randomized_rows: output += ",".join(row) + "\n"\<close>.\<close>

fun write_rows :: "string list list \<Rightarrow> string \<Rightarrow> string" where
  "write_rows [] output = output"
| "write_rows (row # rows) output = write_rows rows (output @ join '','' row @ [CHR 0x0A])"

text \<open>
  \<^verbatim>\<open>randomize_csv_schema\<close>. The parameter \<open>reader\<close> stands for the library calls
  \<^verbatim>\<open>list(csv.reader(input_csv.splitlines()))\<close>, whose exceptions the function lets through.
  The result is the returned text, the records written to the log and the generator state.
\<close>

definition randomize_csv_schema ::
  "(string \<Rightarrow> error + string list list) \<Rightarrow> 'g provider \<Rightarrow> string \<Rightarrow> 'g \<Rightarrow>
   error + string \<times> log_record list \<times> 'g" where
  "randomize_csv_schema reader P input_csv g =
     (case reader input_csv of
        Inl e \<Rightarrow> Inl e
      | Inr rows \<Rightarrow>
          (case rows of
             [] \<Rightarrow> Inr ([], [(WARNING, ''CSV file is empty.'')], g)
           | header # rest \<Rightarrow>
               (let (randomized_header, g1) = words_for P header g;
                    (randomized_rows, g2) = randomize_rows P rest [randomized_header] g1
                in Inr (write_rows randomized_rows [], [], g2))))"

text \<open>
  A reader for running the model on concrete inputs: lines end at line feeds, cells are
  separated by commas, an empty line is a row without cells; quoting is not handled.
\<close>

fun split_on :: "char \<Rightarrow> string \<Rightarrow> string list" where
  "split_on c [] = [[]]"
| "split_on c (x # xs) =
     (if x = c then [] # split_on c xs
      else (case split_on c xs of [] \<Rightarrow> [[x]] | p # ps \<Rightarrow> (x # p) # ps))"

definition plain_lines :: "string \<Rightarrow> string list" where
  "plain_lines s =
     (if s = [] then []
      else (let ps = split_on (CHR 0x0A) s in if last ps = [] then butlast ps else ps))"

definition plain_reader :: "string \<Rightarrow> error + string list list" where
  "plain_reader s = Inr (map (\<lambda>l. if l = [] then [] else split_on CHR '','' l) (plain_lines s))"

section \<open>Construction of the randomizer\<close>

text \<open>
  \<^verbatim>\<open>str.lower\<close> on strings of code points below 256: the capital letters of ASCII and of
  Latin-1 are mapped to their small letters, which lie 32 code points above.
\<close>

definition lower_char :: "char \<Rightarrow> char" where
  "lower_char c =
     (let n = of_char c :: nat
      in if (65 \<le> n \<and> n \<le> 90) \<or> (192 \<le> n \<and> n \<le> 214) \<or> (216 \<le> n \<and> n \<le> 222)
         then char_of (n + 32) else c)"

definition lower :: "string \<Rightarrow> string" where
  "lower s = map lower_char s"

text \<open>
  The fields of a \<^verbatim>\<open>DataSchemaRandomizer\<close> and its \<^verbatim>\<open>__init__\<close>. The parameter \<open>Faker\<close>
  stands for the library constructor \<^verbatim>\<open>Faker(locale)\<close>, which gives the provider for a
  locale or raises; the program calls it before it checks the format.
\<close>

record 'g randomizer =
  data_format :: string
  input_file :: "string option"
  output_file :: "string option"
  fake :: 'g

definition init ::
  "(string \<Rightarrow> error + 'g) \<Rightarrow> string \<Rightarrow> string option \<Rightarrow> string option \<Rightarrow> string \<Rightarrow>
   error + 'g randomizer" where
  "init Faker fmt inp outp locale =
     (let df = lower fmt
      in case Faker locale of
           Inl e \<Rightarrow> Inl e
         | Inr f \<Rightarrow>
             if df \<notin> set [''json'', ''xml'', ''csv'']
             then Inl (ValueError (''Unsupported data format: '' @ df))
             else Inr \<lparr> data_format = df, input_file = inp, output_file = outp, fake = f \<rparr>)"

section \<open>The JSON adapter on a store of objects\<close>

text \<open>
  Whether \<^verbatim>\<open>randomize_json_schema\<close> changes its argument depends on which objects it
  writes to, so here Python's objects are kept in a store. A \<^verbatim>\<open>list\<close> or a \<^verbatim>\<open>dict\<close> is
  an object with an address, and it holds references; strings, numbers, booleans and
  \<^verbatim>\<open>None\<close> are immutable and are held by value. The store is the list of the objects
  allocated so far, the address of an object is its index, and a new object gets the next
  index.
\<close>

type_synonym addr = nat

datatype atom = AStr string | AInt int | AFloat "64 word" | ABool bool | ANone

datatype pyref = Imm atom | Ptr addr

datatype obj = OList "pyref list" | ODict "(string \<times> pyref) list"

type_synonym heap = "obj list"

definition alloc :: "heap \<Rightarrow> obj \<Rightarrow> addr \<times> heap" where
  "alloc h ob = (length h, h @ [ob])"

text \<open>
  The items of the list, or of the mapping, that a reference points to; \<open>None\<close> when it
  points to no such object. (A Python reference always points to an object; an address
  beyond the store is given no items, so that the functions are total.)
\<close>

definition list_at :: "heap \<Rightarrow> pyref \<Rightarrow> pyref list option" where
  "list_at h v =
     (case v of
        Imm _ \<Rightarrow> None
      | Ptr a \<Rightarrow>
          if a < length h then (case h ! a of OList items \<Rightarrow> Some items | ODict _ \<Rightarrow> None)
          else None)"

definition dict_at :: "heap \<Rightarrow> pyref \<Rightarrow> (string \<times> pyref) list option" where
  "dict_at h v =
     (case v of
        Imm _ \<Rightarrow> None
      | Ptr a \<Rightarrow>
          if a < length h then (case h ! a of ODict kvs \<Rightarrow> Some kvs | OList _ \<Rightarrow> None)
          else None)"

fun is_str :: "pyref \<Rightarrow> bool" where
  "is_str (Imm (AStr _)) = True"
| "is_str _ = False"

fun is_int :: "pyref \<Rightarrow> bool" where
  "is_int (Imm (AInt _)) = True"
| "is_int (Imm (ABool _)) = True"
| "is_int _ = False"

fun is_float :: "pyref \<Rightarrow> bool" where
  "is_float (Imm (AFloat _)) = True"
| "is_float _ = False"

fun is_bool :: "pyref \<Rightarrow> bool" where
  "is_bool (Imm (ABool _)) = True"
| "is_bool _ = False"

text \<open>
  The two writes of the program: \<^verbatim>\<open>randomized_data[word] = value\<close> on the mapping being
  built, and the append of the list comprehension to the list being built. Each replaces
  the object at one address. (The object at that address is the mapping, or the list, that
  the same frame has allocated; for an object of the other kind the store is left as it
  is.)
\<close>

fun setitem :: "string \<Rightarrow> pyref \<Rightarrow> (string \<times> pyref) list \<Rightarrow> (string \<times> pyref) list" where
  "setitem k r [] = [(k, r)]"
| "setitem k r ((k', r') # d) = (if k' = k then (k, r) # d else (k', r') # setitem k r d)"

definition list_append :: "heap \<Rightarrow> addr \<Rightarrow> pyref \<Rightarrow> heap" where
  "list_append h l r = (case h ! l of OList rs \<Rightarrow> h[l := OList (rs @ [r])] | ODict _ \<Rightarrow> h)"

definition dict_store :: "heap \<Rightarrow> addr \<Rightarrow> string \<Rightarrow> pyref \<Rightarrow> heap" where
  "dict_store h d k r =
     (case h ! d of ODict kvs \<Rightarrow> h[d := ODict (setitem k r kvs)] | OList _ \<Rightarrow> h)"

text \<open>
  \<^verbatim>\<open>randomize_json_schema\<close> and \<^verbatim>\<open>randomize_value\<close> on the store, statement for statement
  as above: the same tests in the same order, the same frames counted by \<open>n\<close>, the value
  randomized before the key word is drawn. \<^verbatim>\<open>randomized_data = {}\<close> allocates the new
  mapping before the loop, and the comprehension allocates its new list when its frame is
  entered; \<open>randomize_items_heap\<close> and \<open>randomize_list_heap\<close> are the two loops, over the
  items the input object holds when the loop starts, writing to the new object at the
  address given. Each function returns its result or exception together with the store
  and the generator state it leaves; what was allocated before an exception stays
  allocated. Since addresses are followed and not a tree, an input may share an object
  between several places or contain itself; a run on an object that contains itself ends
  with \<^verbatim>\<open>RecursionError\<close>.
\<close>

function
  randomize_json_schema_heap ::
    "nat \<Rightarrow> 'g provider \<Rightarrow> heap \<Rightarrow> pyref \<Rightarrow> 'g \<Rightarrow> (error + pyref) \<times> heap \<times> 'g" and
  randomize_value_heap ::
    "nat \<Rightarrow> 'g provider \<Rightarrow> heap \<Rightarrow> pyref \<Rightarrow> 'g \<Rightarrow> (error + pyref) \<times> heap \<times> 'g" and
  randomize_list_heap ::
    "nat \<Rightarrow> 'g provider \<Rightarrow> heap \<Rightarrow> pyref list \<Rightarrow> addr \<Rightarrow> 'g \<Rightarrow> (error + unit) \<times> heap \<times> 'g" and
  randomize_items_heap ::
    "nat \<Rightarrow> 'g provider \<Rightarrow> heap \<Rightarrow> (string \<times> pyref) list \<Rightarrow> addr \<Rightarrow> 'g \<Rightarrow>
     (error + unit) \<times> heap \<times> 'g"
where
  "randomize_json_schema_heap n P h input_data g =
     (case dict_at h input_data of
        None \<Rightarrow> (Inl (TypeError ''Input data must be a dictionary for JSON format.''), h, g)
      | Some kvs \<Rightarrow>
          (let (randomized_data, h0) = alloc h (ODict [])
           in case randomize_items_heap n P h0 kvs randomized_data g of
                (Inl e, h', g') \<Rightarrow> (Inl e, h', g')
              | (Inr _, h', g') \<Rightarrow> (Inr (Ptr randomized_data), h', g')))"
| "randomize_value_heap n P h v g =
     (if is_str v then (let (w, g') = fake_word P g in (Inr (Imm (AStr w)), h, g'))
      else if is_int v then (let (i, g') = fake_random_int P g in (Inr (Imm (AInt i)), h, g'))
      else if is_float v then (let (f, g') = fake_pyfloat P g in (Inr (Imm (AFloat f)), h, g'))
      else if is_bool v then (let (b, g') = fake_boolean P g in (Inr (Imm (ABool b)), h, g'))
      else
        (case list_at h v of
           Some items \<Rightarrow>
             (case n of
                0 \<Rightarrow> (Inl RecursionError, h, g)
              | Suc m \<Rightarrow>
                  (let (l, h0) = alloc h (OList [])
                   in case randomize_list_heap m P h0 items l g of
                        (Inl e, h', g') \<Rightarrow> (Inl e, h', g')
                      | (Inr _, h', g') \<Rightarrow> (Inr (Ptr l), h', g')))
         | None \<Rightarrow>
             (case dict_at h v of
                Some kvs \<Rightarrow>
                  (case n of
                     0 \<Rightarrow> (Inl RecursionError, h, g)
                   | Suc m \<Rightarrow> randomize_json_schema_heap m P h v g)
              | None \<Rightarrow> (Inr (Imm ANone), h, g))))"
| "randomize_list_heap n P h [] l g = (Inr (), h, g)"
| "randomize_list_heap n P h (item # items) l g =
     (case n of
        0 \<Rightarrow> (Inl RecursionError, h, g)
      | Suc m \<Rightarrow>
          (case randomize_value_heap m P h item g of
             (Inl e, h1, g1) \<Rightarrow> (Inl e, h1, g1)
           | (Inr r, h1, g1) \<Rightarrow> randomize_list_heap n P (list_append h1 l r) items l g1))"
| "randomize_items_heap n P h [] randomized_data g = (Inr (), h, g)"
| "randomize_items_heap n P h ((key, v) # rest) randomized_data g =
     (case n of
        0 \<Rightarrow> (Inl RecursionError, h, g)
      | Suc m \<Rightarrow>
          (case randomize_value_heap m P h v g of
             (Inl e, h1, g1) \<Rightarrow> (Inl e, h1, g1)
           | (Inr r, h1, g1) \<Rightarrow>
               (let (w, g2) = fake_word P g1
                in randomize_items_heap n P (dict_store h1 randomized_data w r) rest
                     randomized_data g2)))"
  by pat_completeness auto

termination
  by (relation "inv_image (less_than <*lex*> less_than <*lex*> less_than) (\<lambda>s. case s of
      Inl (Inl (n, P, h, v, g)) \<Rightarrow> (n, 1, 0)
    | Inl (Inr (n, P, h, v, g)) \<Rightarrow> (n, 2, 0)
    | Inr (Inl (n, P, h, items, l, g)) \<Rightarrow> (n, 0, length items)
    | Inr (Inr (n, P, h, kvs, d, g)) \<Rightarrow> (n, 0, length kvs))") auto

text \<open>
  The references an object holds, and the objects that can be reached from a reference
  by following references: \<open>reachable h r a\<close> says that the object at address \<open>a\<close> is
  the one \<open>r\<close> points to or is nested in it, at any depth.
\<close>

fun refs :: "obj \<Rightarrow> pyref list" where
  "refs (OList rs) = rs"
| "refs (ODict kvs) = map snd kvs"

inductive reachable :: "heap \<Rightarrow> pyref \<Rightarrow> addr \<Rightarrow> bool" for h :: heap where
  here: "a < length h \<Longrightarrow> reachable h (Ptr a) a"
| step: "a < length h \<Longrightarrow> r \<in> set (refs (h ! a)) \<Longrightarrow> reachable h r b \<Longrightarrow> reachable h (Ptr a) b"

code_pred reachable .

text \<open>
  What a call, and what a loop writing to the object at \<open>l\<close>, may do to the store.
  \<open>unchanged h h'\<close>: every object of \<open>h\<close> is in \<open>h'\<close> at the same address with the same
  content; \<open>unchanged_but l h h'\<close>: the same, but for the object at \<open>l\<close>.
  \<open>closed_above b h\<close>: the objects at addresses from \<open>b\<close> on hold references only to
  objects at addresses from \<open>b\<close> on.
\<close>

definition unchanged :: "heap \<Rightarrow> heap \<Rightarrow> bool" where
  "unchanged h h' = (length h \<le> length h' \<and> (\<forall>a < length h. h' ! a = h ! a))"

definition unchanged_but :: "addr \<Rightarrow> heap \<Rightarrow> heap \<Rightarrow> bool" where
  "unchanged_but l h h' =
     (length h \<le> length h' \<and> (\<forall>a < length h. a \<noteq> l \<longrightarrow> h' ! a = h ! a))"

definition fresh_ref :: "nat \<Rightarrow> heap \<Rightarrow> pyref \<Rightarrow> bool" where
  "fresh_ref b h r = (case r of Imm _ \<Rightarrow> True | Ptr a \<Rightarrow> b \<le> a \<and> a < length h)"

definition closed_above :: "nat \<Rightarrow> heap \<Rightarrow> bool" where
  "closed_above b h =
     (\<forall>x. b \<le> x \<and> x < length h \<longrightarrow> (\<forall>r \<in> set (refs (h ! x)). fresh_ref b h r))"

definition call_ok :: "heap \<Rightarrow> (error + pyref) \<times> heap \<times> 'g \<Rightarrow> bool" where
  "call_ok h out =
     (case out of (res, h', g') \<Rightarrow>
        unchanged h h' \<and>
        (\<forall>b \<le> length h. closed_above b h \<longrightarrow> closed_above b h') \<and>
        (\<forall>r. res = Inr r \<longrightarrow> fresh_ref (length h) h' r))"

definition loop_ok :: "addr \<Rightarrow> heap \<Rightarrow> (error + unit) \<times> heap \<times> 'g \<Rightarrow> bool" where
  "loop_ok l h out =
     (case out of (res, h', g') \<Rightarrow>
        unchanged_but l h h' \<and> (\<forall>b \<le> l. closed_above b h \<longrightarrow> closed_above b h'))"

section \<open>Properties\<close>

section \<open>Equations of the dispatch, one per kind of value\<close>

lemmas randomize_induct =
  randomize_json_schema_randomize_value_randomize_list_randomize_items.induct

lemma randomize_value_JStr:
  "randomize_value n P (JStr s) g = Inr (JStr (fst (fake_word P g)), snd (fake_word P g))"
  by (simp add: case_prod_beta)

lemma randomize_value_JInt:
  "randomize_value n P (JInt i) g =
     Inr (JInt (fst (fake_random_int P g)), snd (fake_random_int P g))"
  by (simp add: case_prod_beta)

lemma randomize_value_JBool:
  "randomize_value n P (JBool b) g =
     Inr (JInt (fst (fake_random_int P g)), snd (fake_random_int P g))"
  by (simp add: case_prod_beta)

lemma randomize_value_JFloat:
  "randomize_value n P (JFloat f) g =
     Inr (JFloat (fst (fake_pyfloat P g)), snd (fake_pyfloat P g))"
  by (simp add: case_prod_beta)

lemma randomize_value_JNull: "randomize_value n P JNull g = Inr (JNull, g)"
  by simp

lemma randomize_json_schema_JDict:
  "randomize_json_schema n P (JDict kvs) g = randomize_items n P kvs [] g"
  by simp

lemma randomize_value_JList:
  "randomize_value n P (JList xs) g =
     (case n of
        0 \<Rightarrow> Inl RecursionError
      | Suc m \<Rightarrow>
          (case randomize_list m P xs g of
             Inl e \<Rightarrow> Inl e
           | Inr (ys, g') \<Rightarrow> Inr (JList ys, g')))"
  by (cases n) simp_all

lemma randomize_value_JDict:
  "randomize_value n P (JDict kvs) g =
     (case n of 0 \<Rightarrow> Inl RecursionError | Suc m \<Rightarrow> randomize_items m P kvs [] g)"
  by (cases n) simp_all

lemmas randomize_value_simps =
  randomize_value_JStr randomize_value_JInt randomize_value_JBool randomize_value_JFloat
  randomize_value_JNull randomize_value_JList randomize_value_JDict

declare randomize_value.simps [simp del] randomize_json_schema.simps [simp del]





section \<open>The recursion limit\<close>

lemma max_list_Nil [simp]: "max_list [] = 0"
  by (simp add: max_list_def)

lemma max_list_Cons [simp]: "max_list (x # xs) = max x (max_list xs)"
  by (simp add: max_list_def)

lemma max_list_le_iff: "max_list ns \<le> n \<longleftrightarrow> (\<forall>x \<in> set ns. x \<le> n)"
  by (induction ns) auto

text \<open>
  Each of the four functions returns when the frames left cover the nesting of its
  argument, and raises \<^verbatim>\<open>RecursionError\<close> when they do not.
\<close>

lemma randomize_outcome:
  "isinstance_dict d \<longrightarrow>
     (call_depth_schema d \<le> n \<longrightarrow> (\<exists>out g'. randomize_json_schema n P d g = Inr (JDict out, g'))) \<and>
     (n < call_depth_schema d \<longrightarrow> randomize_json_schema n P d g = Inl RecursionError)"
  "(call_depth_value v \<le> n \<longrightarrow> (\<exists>y g'. randomize_value n P v g = Inr (y, g'))) \<and>
   (n < call_depth_value v \<longrightarrow> randomize_value n P v g = Inl RecursionError)"
  "(max_list (map (\<lambda>x. Suc (call_depth_value x)) xs) \<le> n \<longrightarrow>
      (\<exists>ys g'. randomize_list n P xs g = Inr (ys, g') \<and> length ys = length xs)) \<and>
   (n < max_list (map (\<lambda>x. Suc (call_depth_value x)) xs) \<longrightarrow>
      randomize_list n P xs g = Inl RecursionError)"
  "(max_list (map (\<lambda>v. Suc (call_depth_value v)) (map snd kvs)) \<le> n \<longrightarrow>
      (\<exists>out g'. randomize_items n P kvs acc g = Inr (JDict out, g'))) \<and>
   (n < max_list (map (\<lambda>v. Suc (call_depth_value v)) (map snd kvs)) \<longrightarrow>
      randomize_items n P kvs acc g = Inl RecursionError)"
proof (induction n P d g and n P v g and n P xs g and n P kvs acc g rule: randomize_induct)
  case (1 n P input_data g)
  then show ?case
    by (cases input_data) (simp_all add: randomize_json_schema_JDict call_depth_schema_def)
next
  case (2 n P v g)
  show ?case
  proof (cases v)
    case (JList xs)
    with 2(1) show ?thesis
      by (cases n) (auto simp: randomize_value_JList)
  next
    case (JDict kvs)
    with 2(2) show ?thesis
      by (cases n) (auto simp: randomize_value_JDict randomize_json_schema_JDict
          call_depth_schema_def)
  qed (simp_all add: randomize_value_simps)
next
  case (3 n P g)
  then show ?case by simp
next
  case (4 n P item items g)
  show ?case
  proof (cases n)
    case 0
    then show ?thesis by simp
  next
    case (Suc m)
    note ih1 = 4(1) [OF Suc] and ih2 = 4(2) [OF Suc]
    show ?thesis
    proof (cases "call_depth_value item \<le> m")
      case True
      with ih1 obtain y g1 where y: "randomize_value m P item g = Inr (y, g1)" by blast
      from ih2 [OF y refl] True y Suc show ?thesis by auto
    next
      case False
      with ih1 have "randomize_value m P item g = Inl RecursionError" by simp
      with False Suc show ?thesis by auto
    qed
  qed
next
  case (5 n P randomized_data g)
  then show ?case by simp
next
  case (6 n P key v rest randomized_data g)
  show ?case
  proof (cases n)
    case 0
    then show ?thesis by simp
  next
    case (Suc m)
    note ih1 = 6(1) [OF Suc] and ih2 = 6(2) [OF Suc]
    show ?thesis
    proof (cases "call_depth_value v \<le> m")
      case True
      with ih1 obtain y g1 where y: "randomize_value m P v g = Inr (y, g1)" by blast
      obtain w g2 where w: "fake_word P g1 = (w, g2)" by (cases "fake_word P g1")
      from ih2 [OF y refl refl w [symmetric]] True y w Suc show ?thesis by auto
    next
      case False
      with ih1 have "randomize_value m P v g = Inl RecursionError" by simp
      with False Suc show ?thesis by auto
    qed
  qed
qed



lemma randomize_value_fits:
  "randomize_value n P v g = Inr (y, g') \<Longrightarrow> call_depth_value v \<le> n"
  using randomize_outcome(2) [of v n P g] by (cases "call_depth_value v \<le> n") simp_all

lemma randomize_list_returns:
  assumes "max_list (map (\<lambda>x. Suc (call_depth_value x)) xs) \<le> n"
  obtains ys g' where "randomize_list n P xs g = Inr (ys, g')" and "length ys = length xs"
  using randomize_outcome(3) [of xs n P g] assms by blast

lemma randomize_list_raises:
  "n < max_list (map (\<lambda>x. Suc (call_depth_value x)) xs) \<Longrightarrow>
   randomize_list n P xs g = Inl RecursionError"
  using randomize_outcome(3) [of xs n P g] by blast


lemma randomize_items_raises:
  "n < max_list (map (\<lambda>v. Suc (call_depth_value v)) (map snd kvs)) \<Longrightarrow>
   randomize_items n P kvs acc g = Inl RecursionError"
  using randomize_outcome(4) [of kvs n P acc g] by blast

lemma randomize_items_fits:
  "randomize_items n P kvs acc g = Inr (out, g') \<Longrightarrow>
   max_list (map (\<lambda>v. Suc (call_depth_value v)) (map snd kvs)) \<le> n"
  using randomize_items_raises [of n kvs P acc g]
  by (cases "max_list (map (\<lambda>v. Suc (call_depth_value v)) (map snd kvs)) \<le> n") simp_all

section \<open>Top-level input that is not a mapping\<close>

text \<open>
  C7. When the value handed to \<^verbatim>\<open>randomize_json_schema\<close> is not a \<^verbatim>\<open>dict\<close> (a list, a
  string, a number, a boolean or \<^verbatim>\<open>None\<close>), the call raises \<^verbatim>\<open>TypeError\<close> and returns
  nothing, whatever the provider, its state and the frames left: the test comes first in
  the body and calls nothing.
\<close>

theorem json_top_level_not_mapping_raises:
  "\<not> isinstance_dict v \<Longrightarrow>
   randomize_json_schema n P v g =
     Inl (TypeError ''Input data must be a dictionary for JSON format.'')"
  by (simp add: randomize_json_schema.simps)

theorem json_top_level_not_mapping_raises_witness:
  "\<not> isinstance_dict (JList [JInt 1, JInt 2, JInt 3]) \<and>
   randomize_json_schema 0 (cycle_provider [''lorem'']) (JList [JInt 1, JInt 2, JInt 3]) 0 =
     Inl (TypeError ''Input data must be a dictionary for JSON format.'')"
  using json_top_level_not_mapping_raises
    [of "JList [JInt 1, JInt 2, JInt 3]" 0 "cycle_provider [''lorem'']" 0]
  by simp

section \<open>Booleans\<close>

text \<open>
  C1. The claim is that a boolean leaf is replaced by a fresh random boolean. The code
  tests \<^verbatim>\<open>isinstance(value, int)\<close> before \<^verbatim>\<open>isinstance(value, bool)\<close>, and every Python
  boolean is an \<^verbatim>\<open>int\<close>: a boolean is replaced by the result of \<^verbatim>\<open>random_int()\<close>, an
  integer, and the boolean branch is never reached. The theorem states what the code does,
  for every boolean, and for the mapping \<^verbatim>\<open>{"active": true}\<close> handled in a frame that has
  the one frame left which the call of \<^verbatim>\<open>randomize_value\<close> takes.
\<close>

theorem json_boolean_dispatched_as_integer:
  "randomize_value n P (JBool b) g =
     Inr (JInt (fst (fake_random_int P g)), snd (fake_random_int P g)) \<and>
   randomize_json_schema (Suc n) P (JDict [(''active'', JBool True)]) g =
     Inr (JDict [(fst (fake_word P (snd (fake_random_int P g))),
                  JInt (fst (fake_random_int P g)))],
          snd (fake_word P (snd (fake_random_int P g))))"
  by (simp add: randomize_json_schema_JDict randomize_value_JBool case_prod_beta)

section \<open>Number of top-level keys\<close>








section \<open>Shape of the output\<close>























section \<open>Element text in the XML adapter\<close>

lemma state_after_add: "state_after P g (a + b) = state_after P (state_after P g a) b"
  by (induction a arbitrary: g) simp_all

lemma nth_word_0 [simp]: "nth_word P g 0 = fst (fake_word P g)"
  by (simp add: nth_word_def)

lemma nth_word_Suc [simp]: "nth_word P g (Suc k) = nth_word P (snd (fake_word P g)) k"
  by (simp add: nth_word_def)

lemma words_drawn_Nil [simp]: "words_drawn [] = 0"
  by (simp add: words_drawn_def)

lemma words_drawn_Cons [simp]:
  "words_drawn (e # es) =
     (if has_text e then Suc (Suc (words_drawn es)) else Suc (words_drawn es))"
  by (simp add: words_drawn_def)

lemma words_drawn_append [simp]: "words_drawn (xs @ ys) = words_drawn xs + words_drawn ys"
  by (simp add: words_drawn_def)

lemma length_labels [simp]: "length (labels P g es) = length es"
  by (induction es arbitrary: g) (simp_all add: case_prod_beta)

lemma labels_append:
  "labels P g (es1 @ es2) = labels P g es1 @ labels P (state_after P g (words_drawn es1)) es2"
  by (induction es1 arbitrary: g) (simp_all add: case_prod_beta)

lemma labels_nth:
  "i < length es \<Longrightarrow>
   labels P g es ! i =
     (nth_word P g (words_drawn (take i es)),
      if has_text (es ! i) then Some (nth_word P g (Suc (words_drawn (take i es))))
      else elem_text (es ! i))"
proof (induction es arbitrary: g i)
  case Nil
  then show ?case by simp
next
  case (Cons e es)
  show ?case
  proof (cases i)
    case 0
    then show ?thesis by (simp add: case_prod_beta)
  next
    case (Suc j)
    with Cons.prems have j: "j < length es" by simp
    show ?thesis
      using Cons.IH [OF j] Suc by (simp add: case_prod_beta)
  qed
qed

lemma randomize_children_ConsE:
  assumes "randomize_children n P (c # cs) g = Inr (out, g')"
  obtains m c' g1 cs' where "n = Suc m" and "randomize_element m P c g = Inr (c', g1)"
    and "randomize_children n P cs g1 = Inr (cs', g')" and "out = c' # cs'"
  using assms by (auto split: nat.splits sum.splits prod.splits)

lemma randomize_children_labels:
  assumes "randomize_children n P cs g = Inr (cs', g')"
    and "\<And>c m h c' h'. c \<in> set cs \<Longrightarrow> randomize_element m P c h = Inr (c', h') \<Longrightarrow>
           map (\<lambda>x. (elem_tag x, elem_text x)) (preorder c') = labels P h (preorder c) \<and>
           h' = state_after P h (words_drawn (preorder c)) \<and> same_tree c c'"
  shows "map (\<lambda>x. (elem_tag x, elem_text x)) (concat (map preorder cs')) =
           labels P g (concat (map preorder cs)) \<and>
         g' = state_after P g (words_drawn (concat (map preorder cs))) \<and>
         list_all2 same_tree cs cs'"
  using assms
proof (induction cs arbitrary: g cs')
  case Nil
  then show ?case by simp
next
  case (Cons c cs)
  from Cons.prems(1)
  obtain m c1 g1 cs1 where n: "n = Suc m" and c1: "randomize_element m P c g = Inr (c1, g1)"
    and cs1: "randomize_children n P cs g1 = Inr (cs1, g')" and out: "cs' = c1 # cs1"
    by (rule randomize_children_ConsE)
  have hd: "map (\<lambda>x. (elem_tag x, elem_text x)) (preorder c1) = labels P g (preorder c) \<and>
            g1 = state_after P g (words_drawn (preorder c)) \<and> same_tree c c1"
    using Cons.prems(2) [of c m g c1 g1] c1 by simp
  have tl: "map (\<lambda>x. (elem_tag x, elem_text x)) (concat (map preorder cs1)) =
              labels P g1 (concat (map preorder cs)) \<and>
            g' = state_after P g1 (words_drawn (concat (map preorder cs))) \<and>
            list_all2 same_tree cs cs1"
    using cs1
  proof (rule Cons.IH)
    fix d m h d' h'
    assume "d \<in> set cs" "randomize_element m P d h = Inr (d', h')"
    then show "map (\<lambda>x. (elem_tag x, elem_text x)) (preorder d') = labels P h (preorder d) \<and>
           h' = state_after P h (words_drawn (preorder d)) \<and> same_tree d d'"
      using Cons.prems(2) [of d m h d' h'] by simp
  qed
  from hd tl out show ?case
    by (simp add: labels_append state_after_add)
qed

lemma randomize_element_labels:
  "randomize_element n P e g = Inr (out, g') \<Longrightarrow>
   map (\<lambda>x. (elem_tag x, elem_text x)) (preorder out) = labels P g (preorder e) \<and>
   g' = state_after P g (words_drawn (preorder e)) \<and> same_tree e out"
proof (induction e arbitrary: n g out g')
  case (Element tg attrs tx tlx cs)
  obtain w1 g1 where w1: "fake_word P g = (w1, g1)" by (cases "fake_word P g")
  obtain w2 g2 where w2: "fake_word P g1 = (w2, g2)" by (cases "fake_word P g1")
  let ?g = "if truthy tx then g2 else g1"
  let ?t = "if truthy tx then Some w2 else tx"
  from Element.prems w1 w2
  obtain cs' where cs': "randomize_children n P cs ?g = Inr (cs', g')"
    and out: "out = Element w1 attrs ?t tlx cs'"
    by (auto split: sum.splits prod.splits if_splits)
  have kids: "map (\<lambda>x. (elem_tag x, elem_text x)) (concat (map preorder cs')) =
                labels P ?g (concat (map preorder cs)) \<and>
              g' = state_after P ?g (words_drawn (concat (map preorder cs))) \<and>
              list_all2 same_tree cs cs'"
    using cs' by (rule randomize_children_labels) (rule Element.IH)
  show ?case
  proof (cases "truthy tx")
    case True
    with kids out w1 w2 show ?thesis by (simp add: has_text_def)
  next
    case False
    with kids out w1 show ?thesis by (simp add: has_text_def)
  qed
qed

lemma length_preorder_labels:
  "map (\<lambda>x. (elem_tag x, elem_text x)) (preorder out) = labels P g (preorder e) \<Longrightarrow>
   length (preorder out) = length (preorder e)"
  using length_labels [of P g "preorder e"] length_map [of "\<lambda>x. (elem_tag x, elem_text x)" "preorder out"]
  by simp

text \<open>
  \<^verbatim>\<open>randomize_element\<close> returns when the frames left cover the levels of descendants, and
  raises \<^verbatim>\<open>RecursionError\<close> when they do not.
\<close>

lemma randomize_element_outcome:
  "(call_depth_element e \<le> n \<longrightarrow> (\<exists>out g'. randomize_element n P e g = Inr (out, g'))) \<and>
   (n < call_depth_element e \<longrightarrow> randomize_element n P e g = Inl RecursionError)"
  "(max_list (map (\<lambda>c. Suc (call_depth_element c)) cs) \<le> n \<longrightarrow>
      (\<exists>cs' g'. randomize_children n P cs g = Inr (cs', g'))) \<and>
   (n < max_list (map (\<lambda>c. Suc (call_depth_element c)) cs) \<longrightarrow>
      randomize_children n P cs g = Inl RecursionError)"
proof (induction n P e g and n P cs g rule: randomize_element_randomize_children.induct)
  case (1 n P tg attrs tx tlx cs g)
  obtain w1 g1 where w1: "fake_word P g = (w1, g1)" by (cases "fake_word P g")
  obtain w2 g2 where w2: "fake_word P g1 = (w2, g2)" by (cases "fake_word P g1")
  let ?g = "if truthy tx then g2 else g1"
  let ?t = "if truthy tx then Some w2 else tx"
  have ih: "(max_list (map (\<lambda>c. Suc (call_depth_element c)) cs) \<le> n \<longrightarrow>
              (\<exists>cs' g'. randomize_children n P cs ?g = Inr (cs', g'))) \<and>
            (n < max_list (map (\<lambda>c. Suc (call_depth_element c)) cs) \<longrightarrow>
              randomize_children n P cs ?g = Inl RecursionError)"
    using 1 [of "(w1, g1)" w1 g1 "(?t, ?g)" ?t ?g] w1 w2 by (simp split: if_splits)
  have eq: "randomize_element n P (Element tg attrs tx tlx cs) g =
        (case randomize_children n P cs ?g of
           Inl e \<Rightarrow> Inl e
         | Inr (new_children, g3) \<Rightarrow> Inr (Element w1 attrs ?t tlx new_children, g3))"
    using w1 w2 by simp
  from ih show ?case unfolding eq by auto
next
  case (2 n P g)
  then show ?case by simp
next
  case (3 n P child rest g)
  show ?case
  proof (cases n)
    case 0
    then show ?thesis by simp
  next
    case (Suc m)
    note ih1 = 3(1) [OF Suc] and ih2 = 3(2) [OF Suc]
    show ?thesis
    proof (cases "call_depth_element child \<le> m")
      case True
      with ih1 obtain y g1 where y: "randomize_element m P child g = Inr (y, g1)" by blast
      from ih2 [OF y refl] True y Suc show ?thesis by auto
    next
      case False
      with ih1 have "randomize_element m P child g = Inl RecursionError" by simp
      with False Suc show ?thesis by auto
    qed
  qed
qed

lemma randomize_element_returns:
  assumes "call_depth_element e \<le> n"
  obtains out g' where "randomize_element n P e g = Inr (out, g')"
  using randomize_element_outcome(1) [of e n P g] assms by blast

lemma randomize_element_raises:
  "n < call_depth_element e \<Longrightarrow> randomize_element n P e g = Inl RecursionError"
  using randomize_element_outcome(1) [of e n P g] by blast

lemma call_depth_element_nested [simp]: "call_depth_element (nested k) = k"
  by (induction k) simp_all

lemma has_text_nested [simp]: "has_text (nested k)"
  by (cases k) (simp_all add: has_text_def)

text \<open>
  C5, as amended. For every XML input that parses and whose levels of nesting the frames
  left cover, \<^verbatim>\<open>randomize_element\<close> returns a tree of the same form as the parsed one and
  \<^verbatim>\<open>randomize_xml_schema\<close> hands that tree to the serializer. The run draws its words in
  document order, one for each tag and one more for each element that has text. For every
  element of the tree, root or descendant, taken by its place \<open>i\<close> in document order: its
  new tag is the word of the draw that follows the draws made for the elements before
  it; if it had non-empty text, its new text is the word of the next draw, a draw made
  for this text alone; if it had no text (\<^verbatim>\<open>None\<close> or the empty string), its text is
  unchanged. When the frames left do not cover the nesting, the call raises
  \<^verbatim>\<open>RecursionError\<close> and returns nothing.
\<close>

theorem xml_text_rule:
  assumes "fromstring input_xml = Inr root"
  shows "(call_depth_element root < n \<longrightarrow>
           (\<exists>out g'. randomize_element (n - 1) P root g = Inr (out, g') \<and>
              randomize_xml_schema n fromstring tostring P input_xml g =
                (case tostring out of Inl e \<Rightarrow> Inl e | Inr s \<Rightarrow> Inr (s, g')) \<and>
              same_tree root out \<and>
              length (preorder out) = length (preorder root) \<and>
              (\<forall>i < length (preorder root).
                 elem_tag (preorder out ! i) =
                   nth_word P g (words_drawn (take i (preorder root))) \<and>
                 elem_text (preorder out ! i) =
                   (if has_text (preorder root ! i)
                    then Some (nth_word P g (Suc (words_drawn (take i (preorder root)))))
                    else elem_text (preorder root ! i))))) \<and>
         (n \<le> call_depth_element root \<longrightarrow>
            randomize_xml_schema n fromstring tostring P input_xml g = Inl RecursionError)"
proof (intro conjI impI)
  assume fits: "call_depth_element root < n"
  then obtain m where n: "n = Suc m" by (cases n) simp_all
  with fits have "call_depth_element root \<le> m" by simp
  then obtain out g' where run: "randomize_element m P root g = Inr (out, g')"
    by (rule randomize_element_returns)
  from randomize_element_labels [OF run]
  have lab: "map (\<lambda>x. (elem_tag x, elem_text x)) (preorder out) = labels P g (preorder root)"
    and same: "same_tree root out" by simp_all
  from lab have len: "length (preorder out) = length (preorder root)"
    by (rule length_preorder_labels)
  have each: "elem_tag (preorder out ! i) =
                nth_word P g (words_drawn (take i (preorder root))) \<and>
              elem_text (preorder out ! i) =
                (if has_text (preorder root ! i)
                 then Some (nth_word P g (Suc (words_drawn (take i (preorder root)))))
                 else elem_text (preorder root ! i))"
    if i: "i < length (preorder root)" for i
  proof -
    from i len have "(elem_tag (preorder out ! i), elem_text (preorder out ! i)) =
        map (\<lambda>x. (elem_tag x, elem_text x)) (preorder out) ! i"
      by simp
    also have "\<dots> = labels P g (preorder root) ! i" by (simp only: lab)
    also have "\<dots> =
        (nth_word P g (words_drawn (take i (preorder root))),
         if has_text (preorder root ! i)
         then Some (nth_word P g (Suc (words_drawn (take i (preorder root)))))
         else elem_text (preorder root ! i))"
      using i by (rule labels_nth)
    finally show ?thesis by (simp only: prod.inject)
  qed
  have "randomize_xml_schema n fromstring tostring P input_xml g =
          (case tostring out of Inl e \<Rightarrow> Inl e | Inr s \<Rightarrow> Inr (s, g'))"
    using assms run n by (simp add: randomize_xml_schema_def)
  moreover have "randomize_element (n - 1) P root g = Inr (out, g')"
    using run n by simp
  ultimately
  show "\<exists>out g'. randomize_element (n - 1) P root g = Inr (out, g') \<and>
          randomize_xml_schema n fromstring tostring P input_xml g =
            (case tostring out of Inl e \<Rightarrow> Inl e | Inr s \<Rightarrow> Inr (s, g')) \<and>
          same_tree root out \<and>
          length (preorder out) = length (preorder root) \<and>
          (\<forall>i < length (preorder root).
             elem_tag (preorder out ! i) =
               nth_word P g (words_drawn (take i (preorder root))) \<and>
             elem_text (preorder out ! i) =
               (if has_text (preorder root ! i)
                then Some (nth_word P g (Suc (words_drawn (take i (preorder root)))))
                else elem_text (preorder root ! i)))"
    using same len each by blast
next
  assume short: "n \<le> call_depth_element root"
  show "randomize_xml_schema n fromstring tostring P input_xml g = Inl RecursionError"
  proof (cases n)
    case 0
    with assms show ?thesis by (simp add: randomize_xml_schema_def)
  next
    case (Suc m)
    with short have "m < call_depth_element root" by simp
    then have "randomize_element m P root g = Inl RecursionError"
      by (rule randomize_element_raises)
    with assms Suc show ?thesis by (simp add: randomize_xml_schema_def)
  qed
qed

theorem xml_text_rule_witness:
  "(\<lambda>s. Inr (Element ''a'' [] (Some ''hi'') None
            [Element ''b'' [(''k'', ''v'')] (Some ''yo'') (Some ''t'')
               [Element ''d'' [] None None []],
             Element ''c'' [] (Some []) None []]))
     ''<a>hi<b k=\"v\">yo<d/></b>t<c></c></a>'' =
     (Inr (Element ''a'' [] (Some ''hi'') None
            [Element ''b'' [(''k'', ''v'')] (Some ''yo'') (Some ''t'')
               [Element ''d'' [] None None []],
             Element ''c'' [] (Some []) None []])
       :: error + element) \<and>
   call_depth_element (Element ''a'' [] (Some ''hi'') None
            [Element ''b'' [(''k'', ''v'')] (Some ''yo'') (Some ''t'')
               [Element ''d'' [] None None []],
             Element ''c'' [] (Some []) None []]) < 3 \<and>
   randomize_element 2 (cycle_provider [''lorem'', ''ipsum'', ''dolor'', ''sit'', ''amet'', ''erat''])
     (Element ''a'' [] (Some ''hi'') None
        [Element ''b'' [(''k'', ''v'')] (Some ''yo'') (Some ''t'')
           [Element ''d'' [] None None []],
         Element ''c'' [] (Some []) None []]) 0 =
     Inr (Element ''lorem'' [] (Some ''ipsum'') None
            [Element ''dolor'' [(''k'', ''v'')] (Some ''sit'') (Some ''t'')
               [Element ''amet'' [] None None []],
             Element ''erat'' [] (Some []) None []], 6) \<and>
   randomize_xml_schema 3
     (\<lambda>s. Inr (Element ''a'' [] (Some ''hi'') None
            [Element ''b'' [(''k'', ''v'')] (Some ''yo'') (Some ''t'')
               [Element ''d'' [] None None []],
             Element ''c'' [] (Some []) None []]))
     tag_writer (cycle_provider [''lorem'', ''ipsum'', ''dolor'', ''sit'', ''amet'', ''erat''])
     ''<a>hi<b k=\"v\">yo<d/></b>t<c></c></a>'' 0 = Inr (''loremdolorameterat'', 6) \<and>
   nth_word (cycle_provider [''lorem'', ''ipsum'', ''dolor'', ''sit'', ''amet'', ''erat'']) 0
     (Suc (words_drawn (take 1 (preorder (Element ''a'' [] (Some ''hi'') None
            [Element ''b'' [(''k'', ''v'')] (Some ''yo'') (Some ''t'')
               [Element ''d'' [] None None []],
             Element ''c'' [] (Some []) None []]))))) = ''sit'' \<and>
   2 \<le> call_depth_element (Element ''a'' [] (Some ''hi'') None
            [Element ''b'' [(''k'', ''v'')] (Some ''yo'') (Some ''t'')
               [Element ''d'' [] None None []],
             Element ''c'' [] (Some []) None []]) \<and>
   randomize_xml_schema 2
     (\<lambda>s. Inr (Element ''a'' [] (Some ''hi'') None
            [Element ''b'' [(''k'', ''v'')] (Some ''yo'') (Some ''t'')
               [Element ''d'' [] None None []],
             Element ''c'' [] (Some []) None []]))
     tag_writer (cycle_provider [''lorem'', ''ipsum'', ''dolor'', ''sit'', ''amet'', ''erat''])
     ''<a>hi<b k=\"v\">yo<d/></b>t<c></c></a>'' 0 = Inl RecursionError"
  using xml_text_rule
    [of "\<lambda>s. Inr (Element ''a'' [] (Some ''hi'') None
            [Element ''b'' [(''k'', ''v'')] (Some ''yo'') (Some ''t'')
               [Element ''d'' [] None None []],
             Element ''c'' [] (Some []) None []])"
        "''<a>hi<b k=\"v\">yo<d/></b>t<c></c></a>''"
        "Element ''a'' [] (Some ''hi'') None
            [Element ''b'' [(''k'', ''v'')] (Some ''yo'') (Some ''t'')
               [Element ''d'' [] None None []],
             Element ''c'' [] (Some []) None []]"
        3 "cycle_provider [''lorem'', ''ipsum'', ''dolor'', ''sit'', ''amet'', ''erat'']" 0
        tag_writer]
    xml_text_rule
    [of "\<lambda>s. Inr (Element ''a'' [] (Some ''hi'') None
            [Element ''b'' [(''k'', ''v'')] (Some ''yo'') (Some ''t'')
               [Element ''d'' [] None None []],
             Element ''c'' [] (Some []) None []])"
        "''<a>hi<b k=\"v\">yo<d/></b>t<c></c></a>''"
        "Element ''a'' [] (Some ''hi'') None
            [Element ''b'' [(''k'', ''v'')] (Some ''yo'') (Some ''t'')
               [Element ''d'' [] None None []],
             Element ''c'' [] (Some []) None []]"
        2 "cycle_provider [''lorem'', ''ipsum'', ''dolor'', ''sit'', ''amet'', ''erat'']" 0
        tag_writer]
  by (simp add: cycle_provider_def randomize_xml_schema_def tag_writer_def has_text_def)

text \<open>
  C5 as stated fails for a well-formed document nested deeper than the recursion limit
  allows. The document below has 1001 elements, each the only child of the one before and
  each with the text \<^verbatim>\<open>x\<close>. With 1000 frames left below \<^verbatim>\<open>randomize_xml_schema\<close>, more
  than the interpreter's default limit of 1000 can leave there, the call raises
  \<^verbatim>\<open>RecursionError\<close> and there is no output, so no element of the input has a
  counterpart whose text is a random word.
\<close>

theorem xml_text_rule_counterexample:
  "nested_parser 1000 (nested_xml 1000) = Inr (nested 1000) \<and>
   has_text (nested 1000) \<and>
   randomize_xml_schema 1000 (nested_parser 1000) tag_writer (cycle_provider [''lorem''])
     (nested_xml 1000) 0 = Inl RecursionError"
proof -
  have parse: "nested_parser 1000 (nested_xml 1000) = Inr (nested 1000)"
    by (simp add: nested_parser_def)
  have ht: "has_text (nested 1000)" by (rule has_text_nested)
  have "(999 :: nat) < call_depth_element (nested 1000)" by simp
  then have child: "randomize_element 999 (cycle_provider [''lorem'']) (nested 1000) 0 =
      Inl RecursionError"
    by (rule randomize_element_raises)
  have "randomize_xml_schema (Suc 999) (nested_parser 1000) tag_writer
      (cycle_provider [''lorem'']) (nested_xml 1000) 0 = Inl RecursionError"
    unfolding randomize_xml_schema_def by (simp only: parse child sum.case nat.case)
  moreover have "(1000 :: nat) = Suc 999" by simp
  ultimately
  have run: "randomize_xml_schema 1000 (nested_parser 1000) tag_writer
      (cycle_provider [''lorem'']) (nested_xml 1000) 0 = Inl RecursionError"
    by (simp only:)
  from parse ht run show ?thesis by (intro conjI)
qed

section \<open>Rows and cells in the CSV adapter\<close>






text \<open>
  C8. When the input parses to no row at all, \<^verbatim>\<open>randomize_csv_schema\<close> returns the empty
  string, writes one warning to the log, raises nothing and draws nothing from the
  provider.
\<close>

theorem csv_empty_input:
  "reader input_csv = Inr [] \<Longrightarrow>
   randomize_csv_schema reader P input_csv g = Inr ([], [(WARNING, ''CSV file is empty.'')], g)"
  by (simp add: randomize_csv_schema_def)

theorem csv_empty_input_witness:
  "plain_reader [] = Inr [] \<and>
   randomize_csv_schema plain_reader (cycle_provider [''lorem'']) [] 0 =
     Inr ([], [(WARNING, ''CSV file is empty.'')], 0)"
  using csv_empty_input [of plain_reader "[]" "cycle_provider [''lorem'']" 0]
  by (simp add: plain_reader_def plain_lines_def)

section \<open>Unsupported formats\<close>

text \<open>
  C9, as amended. When the provider for the locale can be built, constructing a
  \<^verbatim>\<open>DataSchemaRandomizer\<close> raises \<^verbatim>\<open>ValueError\<close> if the lower-cased format is not one of
  \<^verbatim>\<open>json\<close>, \<^verbatim>\<open>xml\<close>, \<^verbatim>\<open>csv\<close>, and otherwise returns the object, whose format is the
  lower-cased string. The error is raised by the constructor itself.
\<close>

theorem init_unsupported_format:
  assumes "Faker locale = Inr f"
  shows "(lower fmt \<notin> set [''json'', ''xml'', ''csv''] \<longrightarrow>
            init Faker fmt inp outp locale =
              Inl (ValueError (''Unsupported data format: '' @ lower fmt))) \<and>
         (lower fmt \<in> set [''json'', ''xml'', ''csv''] \<longrightarrow>
            init Faker fmt inp outp locale =
              Inr \<lparr> data_format = lower fmt, input_file = inp, output_file = outp, fake = f \<rparr>)"
  using assms by (simp add: init_def)

theorem init_unsupported_format_witness:
  "(\<lambda>locale. if locale = ''en_US'' then Inr (0::nat) else Inl (OtherError ''Invalid configuration for faker locale''))
      ''en_US'' = Inr 0 \<and>
   lower ''yaml'' \<notin> set [''json'', ''xml'', ''csv''] \<and>
   init (\<lambda>locale. if locale = ''en_US'' then Inr (0::nat) else Inl (OtherError ''Invalid configuration for faker locale''))
      ''yaml'' (Some ''in.yaml'') None ''en_US'' =
     Inl (ValueError ''Unsupported data format: yaml'') \<and>
   lower ''Xml'' \<in> set [''json'', ''xml'', ''csv''] \<and>
   init (\<lambda>locale. if locale = ''en_US'' then Inr (0::nat) else Inl (OtherError ''Invalid configuration for faker locale''))
      ''Xml'' (Some ''in.xml'') None ''en_US'' =
     Inr \<lparr> data_format = ''xml'', input_file = Some ''in.xml'', output_file = None, fake = 0 \<rparr>"
proof -
  have y: "lower ''yaml'' = ''yaml''" by code_simp
  have x: "lower ''Xml'' = ''xml''" by code_simp
  show ?thesis
    using init_unsupported_format
      [of "\<lambda>locale. if locale = ''en_US'' then Inr (0::nat) else Inl (OtherError ''Invalid configuration for faker locale'')"
          "''en_US''" 0 "''yaml''" "Some ''in.yaml''" None]
      init_unsupported_format
      [of "\<lambda>locale. if locale = ''en_US'' then Inr (0::nat) else Inl (OtherError ''Invalid configuration for faker locale'')"
          "''en_US''" 0 "''Xml''" "Some ''in.xml''" None]
    by (simp add: y x)
qed

text \<open>
  C9 as stated fails: the format string \<^verbatim>\<open>JSON\<close> is not one of \<^verbatim>\<open>json\<close>, \<^verbatim>\<open>xml\<close>,
  \<^verbatim>\<open>csv\<close>, and the constructor accepts it.
\<close>

theorem init_unsupported_format_counterexample:
  "''JSON'' \<notin> set [''json'', ''xml'', ''csv''] \<and>
   init (\<lambda>locale. Inr (0::nat)) ''JSON'' (Some ''in.json'') None ''en_US'' =
     Inr \<lparr> data_format = ''json'', input_file = Some ''in.json'', output_file = None, fake = 0 \<rparr>"
proof -
  have "lower ''JSON'' = ''json''" by code_simp
  then show ?thesis by (simp add: init_def Let_def)
qed

section \<open>The input is left unchanged\<close>

lemma unchanged_refl: "unchanged h h"
  by (simp add: unchanged_def)

lemma unchanged_alloc: "unchanged h (h @ [ob])"
  by (simp add: unchanged_def nth_append)

lemma unchanged_imp_but: "unchanged h h' \<Longrightarrow> unchanged_but l h h'"
  by (simp add: unchanged_def unchanged_but_def)

lemma unchanged_but_alloc: "unchanged_but (length h) (h @ [ob]) h' \<Longrightarrow> unchanged h h'"
  by (simp add: unchanged_def unchanged_but_def nth_append)

lemma unchanged_but_chain:
  assumes "unchanged h h1" and "length h2 = length h1"
    and "\<And>a. a < length h1 \<Longrightarrow> a \<noteq> l \<Longrightarrow> h2 ! a = h1 ! a"
    and "unchanged_but l h2 h'"
  shows "unchanged_but l h h'"
proof -
  from assms(1) have len1: "length h \<le> length h1" and same1: "\<And>a. a < length h \<Longrightarrow> h1 ! a = h ! a"
    by (simp_all add: unchanged_def)
  from assms(4) have len2: "length h2 \<le> length h'"
    and same2: "\<And>a. a < length h2 \<Longrightarrow> a \<noteq> l \<Longrightarrow> h' ! a = h2 ! a"
    by (simp_all add: unchanged_but_def)
  have "h' ! a = h ! a" if "a < length h" "a \<noteq> l" for a
  proof -
    from that len1 assms(2) have a: "a < length h2" "a < length h1" by simp_all
    have "h' ! a = h2 ! a" using a(1) that(2) by (rule same2)
    also have "\<dots> = h1 ! a" using a(2) that(2) by (rule assms(3))
    also have "\<dots> = h ! a" using that(1) by (rule same1)
    finally show ?thesis .
  qed
  moreover from len1 len2 assms(2) have "length h \<le> length h'" by simp
  ultimately show ?thesis by (simp add: unchanged_but_def)
qed

lemma length_list_append [simp]: "length (list_append h l r) = length h"
  by (simp add: list_append_def split: obj.splits)

lemma length_dict_store [simp]: "length (dict_store h d k r) = length h"
  by (simp add: dict_store_def split: obj.splits)

lemma list_append_other: "a \<noteq> l \<Longrightarrow> list_append h l r ! a = h ! a"
  by (simp add: list_append_def split: obj.splits)

lemma dict_store_other: "a \<noteq> d \<Longrightarrow> dict_store h d k r ! a = h ! a"
  by (simp add: dict_store_def split: obj.splits)

lemma set_setitem: "set (map snd (setitem k r kvs)) \<subseteq> insert r (set (map snd kvs))"
proof (induction kvs)
  case Nil
  then show ?case by simp
next
  case (Cons kv kvs)
  obtain k' r' where kv: "kv = (k', r')" by (cases kv)
  show ?case
  proof (cases "k' = k")
    case True
    with kv show ?thesis by auto
  next
    case False
    with kv Cons.IH show ?thesis by auto
  qed
qed

lemma refs_list_append:
  "l < length h \<Longrightarrow> set (refs (list_append h l r ! l)) \<subseteq> insert r (set (refs (h ! l)))"
  by (auto simp: list_append_def split: obj.splits)

lemma refs_dict_store:
  "d < length h \<Longrightarrow> set (refs (dict_store h d k r ! d)) \<subseteq> insert r (set (refs (h ! d)))"
  using set_setitem [of k r] by (auto simp: dict_store_def split: obj.splits)

lemma fresh_ref_mono:
  "fresh_ref b h r \<Longrightarrow> length h \<le> length h' \<Longrightarrow> b' \<le> b \<Longrightarrow> fresh_ref b' h' r"
  by (cases r) (simp_all add: fresh_ref_def)

declare randomize_value_heap.simps [simp del] randomize_json_schema_heap.simps [simp del]

lemma closed_above_alloc:
  assumes "closed_above b h" and "refs ob = []"
  shows "closed_above b (h @ [ob])"
  unfolding closed_above_def
proof (intro allI impI ballI)
  fix x r
  assume x: "b \<le> x \<and> x < length (h @ [ob])" and r: "r \<in> set (refs ((h @ [ob]) ! x))"
  show "fresh_ref b (h @ [ob]) r"
  proof (cases "x < length h")
    case True
    with r have "r \<in> set (refs (h ! x))" by (simp add: nth_append)
    with assms(1) x True have "fresh_ref b h r" unfolding closed_above_def by blast
    then show ?thesis by (rule fresh_ref_mono) simp_all
  next
    case False
    with x have "x = length h" by simp
    with r assms(2) show ?thesis by simp
  qed
qed

lemma closed_above_update:
  assumes closed: "closed_above b h1"
    and len: "length h2 = length h1"
    and other: "\<And>a. a < length h1 \<Longrightarrow> a \<noteq> l \<Longrightarrow> h2 ! a = h1 ! a"
    and new: "set (refs (h2 ! l)) \<subseteq> insert r (set (refs (h1 ! l)))"
    and r: "fresh_ref b h1 r"
  shows "closed_above b h2"
  unfolding closed_above_def
proof (intro allI impI ballI)
  fix x q
  assume x: "b \<le> x \<and> x < length h2" and q: "q \<in> set (refs (h2 ! x))"
  from x len have x1: "b \<le> x" "x < length h1" by simp_all
  have "fresh_ref b h1 q"
  proof (cases "x = l")
    case True
    with q new have "q = r \<or> q \<in> set (refs (h1 ! x))" by auto
    then show ?thesis
    proof
      assume "q = r"
      with r show ?thesis by simp
    next
      assume "q \<in> set (refs (h1 ! x))"
      with closed x1 show ?thesis unfolding closed_above_def by blast
    qed
  next
    case False
    with other x1 have "h2 ! x = h1 ! x" by simp
    with q have "q \<in> set (refs (h1 ! x))" by simp
    with closed x1 show ?thesis unfolding closed_above_def by blast
  qed
  then show "fresh_ref b h2 q" by (rule fresh_ref_mono) (simp_all add: len)
qed

lemma call_ok_same:
  "(\<And>r. res = Inr r \<Longrightarrow> fresh_ref (length h) h r) \<Longrightarrow> call_ok h (res, h, g')"
  by (simp add: call_ok_def unchanged_refl)

lemma call_okD:
  assumes "call_ok h (res, h', g')"
  shows "unchanged h h'"
    and "\<And>b. b \<le> length h \<Longrightarrow> closed_above b h \<Longrightarrow> closed_above b h'"
    and "\<And>r. res = Inr r \<Longrightarrow> fresh_ref (length h) h' r"
  using assms by (simp_all add: call_ok_def)

lemma loop_okD:
  assumes "loop_ok l h (res, h', g')"
  shows "unchanged_but l h h'"
    and "\<And>b. b \<le> l \<Longrightarrow> closed_above b h \<Longrightarrow> closed_above b h'"
  using assms by (simp_all add: loop_ok_def)

lemma loop_ok_same: "loop_ok l h (res, h, g')"
  by (simp add: loop_ok_def unchanged_but_def)

lemma loop_ok_raise:
  assumes "call_ok h (res, h1, g1)" and "l < length h"
  shows "loop_ok l h (res', h1, g1')"
proof -
  from call_okD(1) [OF assms(1)] have "unchanged_but l h h1" by (rule unchanged_imp_but)
  moreover have "closed_above b h1" if "b \<le> l" "closed_above b h" for b
    using call_okD(2) [OF assms(1), of b] that assms(2) by simp
  ultimately show ?thesis by (simp add: loop_ok_def)
qed

lemma loop_ok_step:
  assumes call: "call_ok h (Inr r, h1, g1)" and l: "l < length h"
    and len: "length h2 = length h1"
    and other: "\<And>a. a < length h1 \<Longrightarrow> a \<noteq> l \<Longrightarrow> h2 ! a = h1 ! a"
    and new: "set (refs (h2 ! l)) \<subseteq> insert r (set (refs (h1 ! l)))"
    and rest: "loop_ok l h2 (res, h', g')"
  shows "loop_ok l h (res, h', g')"
proof -
  note u1 = call_okD(1) [OF call]
  have frame: "unchanged_but l h h'"
    using u1 len other loop_okD(1) [OF rest] by (rule unchanged_but_chain)
  have fr: "fresh_ref (length h) h1 r" using call_okD(3) [OF call] by simp
  have "closed_above b h'" if b: "b \<le> l" and c: "closed_above b h" for b
  proof -
    from b l have bl: "b \<le> length h" by simp
    have c1: "closed_above b h1" using bl c by (rule call_okD(2) [OF call])
    have "fresh_ref b h1 r" using fr by (rule fresh_ref_mono) (simp_all add: bl)
    with c1 len other new have "closed_above b h2" by (rule closed_above_update)
    with b show ?thesis by (rule loop_okD(2) [OF rest])
  qed
  with frame show ?thesis by (simp add: loop_ok_def)
qed

lemma call_ok_builder:
  assumes loop: "loop_ok (length h) (h @ [ob]) (lres, h', g')" and ob: "refs ob = []"
    and res: "\<And>r. res = Inr r \<Longrightarrow> r = Ptr (length h)"
  shows "call_ok h (res, h', g')"
proof -
  note ub = loop_okD(1) [OF loop]
  then have u: "unchanged h h'" by (rule unchanged_but_alloc)
  from ub have len: "length h < length h'" by (simp add: unchanged_but_def)
  have c: "closed_above b h'" if "b \<le> length h" "closed_above b h" for b
  proof -
    from that(2) ob have "closed_above b (h @ [ob])" by (rule closed_above_alloc)
    with that(1) show ?thesis by (rule loop_okD(2) [OF loop])
  qed
  have "fresh_ref (length h) h' r" if "res = Inr r" for r
    using res [OF that] len by (simp add: fresh_ref_def)
  with u c show ?thesis by (simp add: call_ok_def)
qed

lemma unchanged_length: "unchanged h h' \<Longrightarrow> l < length h \<Longrightarrow> l < length h'"
  by (simp add: unchanged_def)

lemma randomize_list_heap_ok:
  assumes element: "\<And>m h v g. n = Suc m \<Longrightarrow> call_ok h (randomize_value_heap m P h v g)"
  shows "l < length h \<Longrightarrow> loop_ok l h (randomize_list_heap n P h items l g)"
proof (induction items arbitrary: h g)
  case Nil
  show ?case by (simp add: loop_ok_same)
next
  case (Cons item items)
  show ?case
  proof (cases n)
    case 0
    then show ?thesis by (simp add: loop_ok_same)
  next
    case (Suc m)
    obtain res1 h1 g1 where run: "randomize_value_heap m P h item g = (res1, h1, g1)"
      by (cases "randomize_value_heap m P h item g")
    have ok: "call_ok h (res1, h1, g1)" using element [OF Suc, of h item g] run by simp
    show ?thesis
    proof (cases res1)
      case (Inl e)
      have "loop_ok l h (Inl e, h1, g1)" using ok Cons.prems by (rule loop_ok_raise)
      with Suc run Inl show ?thesis by simp
    next
      case (Inr r)
      let ?h2 = "list_append h1 l r"
      have l1: "l < length h1" using call_okD(1) [OF ok] Cons.prems by (rule unchanged_length)
      obtain res h' g' where rest: "randomize_list_heap n P ?h2 items l g1 = (res, h', g')"
        by (cases "randomize_list_heap n P ?h2 items l g1")
      have "loop_ok l ?h2 (randomize_list_heap n P ?h2 items l g1)"
        by (rule Cons.IH) (simp add: l1)
      then have rest_ok: "loop_ok l ?h2 (res, h', g')" by (simp only: rest)
      have "loop_ok l h (res, h', g')"
      proof (rule loop_ok_step)
        show "call_ok h (Inr r, h1, g1)" using ok Inr by simp
        show "l < length h" by (rule Cons.prems)
        show "length ?h2 = length h1" by simp
        show "\<And>a. a < length h1 \<Longrightarrow> a \<noteq> l \<Longrightarrow> ?h2 ! a = h1 ! a" by (rule list_append_other)
        show "set (refs (?h2 ! l)) \<subseteq> insert r (set (refs (h1 ! l)))"
          using l1 by (rule refs_list_append)
        show "loop_ok l ?h2 (res, h', g')" by (rule rest_ok)
      qed
      with Suc run Inr rest show ?thesis by simp
    qed
  qed
qed

lemma randomize_items_heap_ok:
  assumes element: "\<And>m h v g. n = Suc m \<Longrightarrow> call_ok h (randomize_value_heap m P h v g)"
  shows "d < length h \<Longrightarrow> loop_ok d h (randomize_items_heap n P h kvs d g)"
proof (induction kvs arbitrary: h g)
  case Nil
  show ?case by (simp add: loop_ok_same)
next
  case (Cons kv kvs)
  obtain key v where kv: "kv = (key, v)" by (cases kv)
  show ?case
  proof (cases n)
    case 0
    then show ?thesis by (simp add: kv loop_ok_same)
  next
    case (Suc m)
    obtain res1 h1 g1 where run: "randomize_value_heap m P h v g = (res1, h1, g1)"
      by (cases "randomize_value_heap m P h v g")
    have ok: "call_ok h (res1, h1, g1)" using element [OF Suc, of h v g] run by simp
    show ?thesis
    proof (cases res1)
      case (Inl e)
      have "loop_ok d h (Inl e, h1, g1)" using ok Cons.prems by (rule loop_ok_raise)
      with Suc run Inl kv show ?thesis by simp
    next
      case (Inr r)
      obtain w g2 where w: "fake_word P g1 = (w, g2)" by (cases "fake_word P g1")
      let ?h2 = "dict_store h1 d w r"
      have d1: "d < length h1" using call_okD(1) [OF ok] Cons.prems by (rule unchanged_length)
      obtain res h' g' where rest: "randomize_items_heap n P ?h2 kvs d g2 = (res, h', g')"
        by (cases "randomize_items_heap n P ?h2 kvs d g2")
      have "loop_ok d ?h2 (randomize_items_heap n P ?h2 kvs d g2)"
        by (rule Cons.IH) (simp add: d1)
      then have rest_ok: "loop_ok d ?h2 (res, h', g')" by (simp only: rest)
      have "loop_ok d h (res, h', g')"
      proof (rule loop_ok_step)
        show "call_ok h (Inr r, h1, g1)" using ok Inr by simp
        show "d < length h" by (rule Cons.prems)
        show "length ?h2 = length h1" by simp
        show "\<And>a. a < length h1 \<Longrightarrow> a \<noteq> d \<Longrightarrow> ?h2 ! a = h1 ! a" by (rule dict_store_other)
        show "set (refs (?h2 ! d)) \<subseteq> insert r (set (refs (h1 ! d)))"
          using d1 by (rule refs_dict_store)
        show "loop_ok d ?h2 (res, h', g')" by (rule rest_ok)
      qed
      with Suc run Inr rest w kv show ?thesis by simp
    qed
  qed
qed

lemma builder_result:
  assumes "loop_ok (length h) (h @ [ob]) (lres, h', g')" and "refs ob = []"
  shows "call_ok h (case (lres, h', g') of
            (Inl e, h', g') \<Rightarrow> (Inl e, h', g')
          | (Inr u, h', g') \<Rightarrow> (Inr (Ptr (length h)), h', g'))"
proof (cases lres)
  case (Inl e)
  have "call_ok h (Inl e, h', g')" using assms by (rule call_ok_builder) simp
  with Inl show ?thesis by simp
next
  case (Inr u)
  have "call_ok h (Inr (Ptr (length h)), h', g')" using assms by (rule call_ok_builder) simp
  with Inr show ?thesis by simp
qed

lemma call_ok_raise: "call_ok h (Inl e, h, g)"
  by (rule call_ok_same) simp

lemma call_ok_atom: "call_ok h (Inr (Imm x), h, g)"
  by (rule call_ok_same) (simp add: fresh_ref_def)

lemma heap_ok:
  "call_ok h (randomize_value_heap n P h v g) \<and> call_ok h (randomize_json_schema_heap n P h v g)"
proof (induction n arbitrary: h v g rule: less_induct)
  case (less n)
  have value_below: "call_ok h (randomize_value_heap m P h v g)" if "n = Suc m" for m h v g
    using less.IH [of m h v g] that by simp
  have schema_below: "call_ok h (randomize_json_schema_heap m P h v g)" if "n = Suc m" for m h v g
    using less.IH [of m h v g] that by simp
  have schema: "call_ok h (randomize_json_schema_heap n P h v g)"
  proof (cases "dict_at h v")
    case None
    then show ?thesis
      by (simp add: randomize_json_schema_heap.simps call_ok_raise)
  next
    case (Some kvs)
    obtain lres h' g' where
      loop: "randomize_items_heap n P (h @ [ODict []]) kvs (length h) g = (lres, h', g')"
      by (cases "randomize_items_heap n P (h @ [ODict []]) kvs (length h) g")
    have "loop_ok (length h) (h @ [ODict []])
            (randomize_items_heap n P (h @ [ODict []]) kvs (length h) g)"
    proof (rule randomize_items_heap_ok)
      show "length h < length (h @ [ODict []])" by simp
    qed (rule value_below)
    then have "loop_ok (length h) (h @ [ODict []]) (lres, h', g')" by (simp only: loop)
    then have "call_ok h (case (lres, h', g') of
            (Inl e, h', g') \<Rightarrow> (Inl e, h', g')
          | (Inr u, h', g') \<Rightarrow> (Inr (Ptr (length h)), h', g'))"
      by (rule builder_result) simp
    with Some loop show ?thesis
      by (simp add: randomize_json_schema_heap.simps alloc_def)
  qed
  have "call_ok h (randomize_value_heap n P h v g)"
  proof (cases v)
    case (Imm a)
    then show ?thesis
      by (cases a)
        (simp_all add: randomize_value_heap.simps case_prod_beta call_ok_atom
          list_at_def dict_at_def)
  next
    case (Ptr a)
    then have atoms: "\<not> is_str v" "\<not> is_int v" "\<not> is_float v" "\<not> is_bool v" by simp_all
    show ?thesis
    proof (cases "list_at h v")
      case (Some items)
      show ?thesis
      proof (cases n)
        case 0
        with Some atoms show ?thesis
          by (simp add: randomize_value_heap.simps call_ok_raise)
      next
        case (Suc m)
        obtain lres h' g' where
          loop: "randomize_list_heap m P (h @ [OList []]) items (length h) g = (lres, h', g')"
          by (cases "randomize_list_heap m P (h @ [OList []]) items (length h) g")
        have element: "call_ok h (randomize_value_heap k P h v g)" if "m = Suc k" for k h v g
          using less.IH [of k h v g] that Suc by simp
        have "loop_ok (length h) (h @ [OList []])
                (randomize_list_heap m P (h @ [OList []]) items (length h) g)"
        proof (rule randomize_list_heap_ok)
          show "length h < length (h @ [OList []])" by simp
        qed (rule element)
        then have "loop_ok (length h) (h @ [OList []]) (lres, h', g')" by (simp only: loop)
        then have "call_ok h (case (lres, h', g') of
                (Inl e, h', g') \<Rightarrow> (Inl e, h', g')
              | (Inr u, h', g') \<Rightarrow> (Inr (Ptr (length h)), h', g'))"
          by (rule builder_result) simp
        with Some atoms Suc loop show ?thesis
          by (simp add: randomize_value_heap.simps alloc_def)
      qed
    next
      case None
      note no_list = None
      show ?thesis
      proof (cases "dict_at h v")
        case None
        with no_list atoms show ?thesis
          by (simp add: randomize_value_heap.simps call_ok_atom)
      next
        case (Some kvs)
        show ?thesis
        proof (cases n)
          case 0
          with Some no_list atoms show ?thesis
            by (simp add: randomize_value_heap.simps call_ok_raise)
        next
          case (Suc m)
          with Some no_list atoms schema_below [OF Suc, of h v g] show ?thesis
            by (simp add: randomize_value_heap.simps)
        qed
      qed
    qed
  qed
  with schema show ?case by simp
qed

lemma reachable_fresh:
  "reachable h r a \<Longrightarrow> closed_above b h \<Longrightarrow> fresh_ref b h r \<Longrightarrow> b \<le> a \<and> a < length h"
proof (induction rule: reachable.induct)
  case (here a)
  then show ?case by (simp add: fresh_ref_def)
next
  case (step a r c)
  from step.prems(2) have a: "b \<le> a" by (simp add: fresh_ref_def)
  with step.prems(1) step.hyps(1,2) have "fresh_ref b h r"
    unfolding closed_above_def by blast
  with step.IH step.prems(1) show ?case by simp
qed

lemma closed_above_top: "closed_above (length h) h"
  by (auto simp: closed_above_def)

lemma reachable_in_store: "reachable h r a \<Longrightarrow> a < length h"
  by (induction rule: reachable.induct) simp_all

text \<open>
  C10. Whatever the store, the input, the provider and the frames left, and whether the
  call returns or raises: every object that was in the store before the call of
  \<^verbatim>\<open>randomize_json_schema\<close> is in it afterwards at the same address with the same content,
  the same keys and the same references in the same order (second and third conjunct); in
  particular the input mapping and every list and mapping nested in it, at any depth
  (first conjunct). When the call returns, every object that can be reached from the
  result was allocated during the call, and none of them is an object of the input
  (fourth conjunct): the result is newly built, and a later write to it, at any depth,
  writes to no object of the input.
\<close>

theorem json_input_unchanged:
  assumes "randomize_json_schema_heap n P h input_data g = (res, h', g')"
  shows "(\<forall>a. reachable h input_data a \<longrightarrow> h' ! a = h ! a) \<and>
         length h \<le> length h' \<and>
         (\<forall>a < length h. h' ! a = h ! a) \<and>
         (\<forall>out a. res = Inr out \<longrightarrow> reachable h' out a \<longrightarrow>
            length h \<le> a \<and> a < length h' \<and> \<not> reachable h input_data a)"
proof -
  have ok: "call_ok h (res, h', g')"
    using heap_ok [of h n P input_data g] assms by simp
  from call_okD(1) [OF ok]
  have len: "length h \<le> length h'" and same: "\<forall>a < length h. h' ! a = h ! a"
    by (simp_all add: unchanged_def)
  have inp: "h' ! a = h ! a" if "reachable h input_data a" for a
    using same reachable_in_store [OF that] by simp
  have new: "length h \<le> a \<and> a < length h' \<and> \<not> reachable h input_data a"
    if "res = Inr out" "reachable h' out a" for out a
  proof -
    have "closed_above (length h) h'"
      using call_okD(2) [OF ok, of "length h"] by (simp add: closed_above_top)
    moreover have "fresh_ref (length h) h' out" using that(1) by (rule call_okD(3) [OF ok])
    ultimately have "length h \<le> a \<and> a < length h'" using that(2) by (intro reachable_fresh)
    moreover from this have "\<not> reachable h input_data a"
      using reachable_in_store [of h input_data a] by auto
    ultimately show ?thesis by simp
  qed
  from inp len same new show ?thesis by blast
qed

theorem json_input_unchanged_witness:
  "randomize_json_schema_heap 5 (cycle_provider [''lorem'', ''ipsum'', ''dolor''])
     [ODict [(''a'', Imm (AInt 1)), (''b'', Ptr 1)],
      OList [Imm (AStr ''x''), Imm (ABool True), Ptr 2],
      ODict [(''c'', Imm ANone)]] (Ptr 0) 0 =
   (Inr (Ptr 3),
    [ODict [(''a'', Imm (AInt 1)), (''b'', Ptr 1)],
     OList [Imm (AStr ''x''), Imm (ABool True), Ptr 2],
     ODict [(''c'', Imm ANone)],
     ODict [(''ipsum'', Imm (AInt 0)), (''dolor'', Ptr 4)],
     OList [Imm (AStr ''dolor''), Imm (AInt 3), Ptr 5],
     ODict [(''ipsum'', Imm ANone)]], 6) \<and>
   randomize_json_schema_heap 4 (cycle_provider [''lorem'', ''ipsum'', ''dolor''])
     [ODict [(''me'', Ptr 0)]] (Ptr 0) 0 =
   (Inl RecursionError, [ODict [(''me'', Ptr 0)], ODict [], ODict [], ODict []], 0)"
  using json_input_unchanged [of 5 "cycle_provider [''lorem'', ''ipsum'', ''dolor'']"
     "[ODict [(''a'', Imm (AInt 1)), (''b'', Ptr 1)],
      OList [Imm (AStr ''x''), Imm (ABool True), Ptr 2],
      ODict [(''c'', Imm ANone)]]" "Ptr 0" 0 "Inr (Ptr 3)"
    "[ODict [(''a'', Imm (AInt 1)), (''b'', Ptr 1)],
     OList [Imm (AStr ''x''), Imm (ABool True), Ptr 2],
     ODict [(''c'', Imm ANone)],
     ODict [(''ipsum'', Imm (AInt 0)), (''dolor'', Ptr 4)],
     OList [Imm (AStr ''dolor''), Imm (AInt 3), Ptr 5],
     ODict [(''ipsum'', Imm ANone)]]" 6]
  by (simp add: randomize_json_schema_heap.simps randomize_value_heap.simps cycle_provider_def
      alloc_def dict_at_def list_at_def list_append_def dict_store_def)

end
